theory Spec2Isabelle
  imports Main
begin

section \<open>Exceptions\<close>

text \<open>
  The exceptions that the modelled code and the library calls it makes can raise.
  A function that can raise returns \<open>error + 'a\<close>, with \<open>Inl\<close> for the exception.
\<close>

datatype error = ValueError | AttributeError | OverflowError | KeyError

section \<open>Calendar dates: the part of \<open>datetime.date\<close> that task01.py uses\<close>

text \<open>
  A \<open>datetime.date\<close> is a year, a month and a day. Python only ever builds dates with
  \<open>1 \<le> year \<le> 9999\<close>, \<open>1 \<le> month \<le> 12\<close> and \<open>1 \<le> day \<le> days_in_month\<close>;
  the constructor raises ValueError otherwise (\<open>mk_date\<close>).
\<close>

record date =
  year :: int
  month :: int
  day :: int

definition is_leap :: "int \<Rightarrow> bool" where
  "is_leap y = (y mod 4 = 0 \<and> (y mod 100 \<noteq> 0 \<or> y mod 400 = 0))"

definition days_in_month :: "int \<Rightarrow> int \<Rightarrow> int" where
  "days_in_month y m =
     (if m = 2 then (if is_leap y then 29 else 28)
      else if m = 4 \<or> m = 6 \<or> m = 9 \<or> m = 11 then 30 else 31)"

definition days_before_year :: "int \<Rightarrow> int" where
  "days_before_year y = (y - 1) * 365 + (y - 1) div 4 - (y - 1) div 100 + (y - 1) div 400"

definition days_before_month :: "int \<Rightarrow> int \<Rightarrow> int" where
  "days_before_month y m =
     (if m = 1 then 0 else if m = 2 then 31 else if m = 3 then 59 else if m = 4 then 90
      else if m = 5 then 120 else if m = 6 then 151 else if m = 7 then 181
      else if m = 8 then 212 else if m = 9 then 243 else if m = 10 then 273
      else if m = 11 then 304 else 334)
     + (if m > 2 \<and> is_leap y then 1 else 0)"

definition toordinal :: "date \<Rightarrow> int" where
  "toordinal d = days_before_year (year d) + days_before_month (year d) (month d) + day d"

text \<open>\<open>date.weekday()\<close>: 0 is Monday, 6 is Sunday.\<close>

definition weekday :: "date \<Rightarrow> int" where
  "weekday d = (toordinal d + 6) mod 7"

definition valid_md :: "date \<Rightarrow> bool" where
  "valid_md d = (1 \<le> month d \<and> month d \<le> 12 \<and> 1 \<le> day d \<and> day d \<le> days_in_month (year d) (month d))"

definition valid_date :: "date \<Rightarrow> bool" where
  "valid_date d = (1 \<le> year d \<and> year d \<le> 9999 \<and> valid_md d)"

text \<open>The constructor \<open>date(y, m, d)\<close>.\<close>

definition mk_date :: "int \<Rightarrow> int \<Rightarrow> int \<Rightarrow> error + date" where
  "mk_date y m d =
     (if 1 \<le> y \<and> y \<le> 9999 \<and> 1 \<le> m \<and> m \<le> 12 \<and> 1 \<le> d \<and> d \<le> days_in_month y m
      then Inr \<lparr>year = y, month = m, day = d\<rparr> else Inl ValueError)"

text \<open>\<open>d.replace(year=y)\<close> builds a new date from the new year and the old month and day.\<close>

definition replace_year :: "date \<Rightarrow> int \<Rightarrow> error + date" where
  "replace_year d y = mk_date y (month d) (day d)"

text \<open>Dates compare as the tuples (year, month, day).\<close>

definition date_less :: "date \<Rightarrow> date \<Rightarrow> bool" where
  "date_less a b =
     (year a < year b \<or> (year a = year b \<and> (month a < month b \<or> (month a = month b \<and> day a < day b))))"

text \<open>
  \<open>date + timedelta(days=n)\<close> is the date whose ordinal is \<open>toordinal d + n\<close>, and raises
  OverflowError when that ordinal is not the ordinal of a date (1 to 3652059, the ordinal of
  31.12.9999). The date with that ordinal is reached here by walking the calendar one day
  at a time.
\<close>

definition next_day :: "date \<Rightarrow> date" where
  "next_day d =
     (if day d < days_in_month (year d) (month d) then d\<lparr>day := day d + 1\<rparr>
      else if month d < 12 then d\<lparr>month := month d + 1, day := 1\<rparr>
      else \<lparr>year = year d + 1, month = 1, day = 1\<rparr>)"

definition prev_day :: "date \<Rightarrow> date" where
  "prev_day d =
     (if 1 < day d then d\<lparr>day := day d - 1\<rparr>
      else if 1 < month d then d\<lparr>month := month d - 1, day := days_in_month (year d) (month d - 1)\<rparr>
      else \<lparr>year = year d - 1, month = 12, day = 31\<rparr>)"

primrec walk :: "(date \<Rightarrow> date) \<Rightarrow> nat \<Rightarrow> date \<Rightarrow> date" where
  "walk f 0 d = d"
| "walk f (Suc n) d = walk f n (f d)"

definition max_ordinal :: int where
  "max_ordinal = 3652059"

definition add_days :: "date \<Rightarrow> int \<Rightarrow> error + date" where
  "add_days d n =
     (let ord = toordinal d + n in
      if 0 < ord \<and> ord \<le> max_ordinal
      then Inr (if 0 \<le> n then walk next_day (nat n) d else walk prev_day (nat (- n)) d)
      else Inl OverflowError)"

section \<open>The window start of \<open>get_birthdays_per_week\<close>\<close>

text \<open>
  Line 90 of task01.py:
  \<^verbatim>\<open>next_monday = today + timedelta(days=(7 - weekday(today)) % 7)\<close>
  The date of the day, \<open>datetime.today().date()\<close>, is the parameter \<open>today\<close>.
\<close>

definition next_monday :: "date \<Rightarrow> error + date" where
  "next_monday today = add_days today ((7 - weekday today) mod 7)"

text \<open>
  \<open>d.strftime("%A")\<close>: the name of the weekday. Python does not leave the C locale
  unless the program asks for another one, and task01.py never does, so the names are the
  English ones.
\<close>

definition day_names :: "string list" where
  "day_names = [''Monday'', ''Tuesday'', ''Wednesday'', ''Thursday'', ''Friday'', ''Saturday'', ''Sunday'']"

definition strftime_A :: "date \<Rightarrow> string" where
  "strftime_A d = day_names ! nat (weekday d)"

section \<open>\<open>datetime.strptime(s, "%d.%m.%Y")\<close>\<close>

text \<open>
  The library turns the format into the regular expression
  \<^verbatim>\<open>(?P<d>3[0-1]|[1-2]\d|0[1-9]|[1-9]| [1-9])\.(?P<m>1[0-2]|0[1-9]|[1-9])\.(?P<Y>\d\d\d\d)\<close>,
  matches it at the start of the string, raises ValueError when there is no match or when
  the match does not reach the end of the string, and then builds the date from the three
  groups, which raises ValueError when they are not a date of the calendar. A matcher
  returns its matches in the order in which backtracking tries them, each with the rest of
  the string; the first match of the whole expression is the one the library takes.
  Strings are strings of 8-bit characters here, and a digit is one of 0 to 9.
\<close>

definition digits :: string where
  "digits = ''0123456789''"

definition nonzero_digits :: string where
  "nonzero_digits = ''123456789''"

definition one_of :: "string \<Rightarrow> string \<Rightarrow> (string \<times> string) list" where
  "one_of cs s = (case s of [] \<Rightarrow> [] | c # r \<Rightarrow> if c \<in> set cs then [([c], r)] else [])"

definition two_of :: "string \<Rightarrow> string \<Rightarrow> string \<Rightarrow> (string \<times> string) list" where
  "two_of cs1 cs2 s = concat (map (\<lambda>(a, r). map (\<lambda>(b, r'). (a @ b, r')) (one_of cs2 r)) (one_of cs1 s))"

definition re_d :: "string \<Rightarrow> (string \<times> string) list" where
  "re_d s = two_of ''3'' ''01'' s @ two_of ''12'' digits s @ two_of ''0'' nonzero_digits s
            @ one_of nonzero_digits s @ two_of '' '' nonzero_digits s"

definition re_m :: "string \<Rightarrow> (string \<times> string) list" where
  "re_m s = two_of ''1'' ''012'' s @ two_of ''0'' nonzero_digits s @ one_of nonzero_digits s"

definition re_Y :: "string \<Rightarrow> (string \<times> string) list" where
  "re_Y s = concat (map (\<lambda>(a, r). map (\<lambda>(b, r'). (a @ b, r')) (two_of digits digits r))
                        (two_of digits digits s))"

definition re_match :: "string \<Rightarrow> (string \<times> string \<times> string \<times> string) list" where
  "re_match s =
     concat (map (\<lambda>(d, r1). concat (map (\<lambda>(p, r2). concat (map (\<lambda>(m, r3).
       concat (map (\<lambda>(q, r4). map (\<lambda>(y, r5). (d, m, y, r5)) (re_Y r4)) (one_of ''.'' r3)))
         (re_m r2))) (one_of ''.'' r1))) (re_d s))"

text \<open>\<open>int(s)\<close> on a group of the match: decimal digits, after a blank that \<open>int\<close> ignores.\<close>

definition digit_val :: "char \<Rightarrow> int" where
  "digit_val c = int (of_char c) - 48"

definition py_int :: "string \<Rightarrow> int" where
  "py_int s = foldl (\<lambda>a c. 10 * a + digit_val c) 0 (dropWhile (\<lambda>c. c = CHR '' '') s)"

definition strptime :: "string \<Rightarrow> error + date" where
  "strptime s =
     (case re_match s of
        [] \<Rightarrow> Inl ValueError
      | (d, m, y, rest) # _ \<Rightarrow>
          if rest \<noteq> [] then Inl ValueError else mk_date (py_int y) (py_int m) (py_int d))"

section \<open>Fields and records of the address book\<close>

text \<open>
  A \<open>Phone\<close> and a \<open>Birthday\<close> hold one string, \<open>value\<close>, checked when the
  object is built. A \<open>Record\<close> holds the value of its name, the values of its phones in
  the order of the list, and the value of its birthday, or None.
\<close>

definition isdigit :: "string \<Rightarrow> bool" where
  "isdigit s = (s \<noteq> [] \<and> list_all (\<lambda>c. c \<in> set digits) s)"

definition Phone_validate :: "string \<Rightarrow> bool" where
  "Phone_validate v = (length v = 10 \<and> isdigit v)"

definition Phone_init :: "string \<Rightarrow> error + string" where
  "Phone_init v = (if \<not> Phone_validate v then Inl ValueError else Inr v)"

definition Birthday_validate :: "string \<Rightarrow> bool" where
  "Birthday_validate v = (case strptime v of Inr d \<Rightarrow> True | Inl e \<Rightarrow> False)"

definition Birthday_init :: "string \<Rightarrow> error + string" where
  "Birthday_init v = (if \<not> Birthday_validate v then Inl ValueError else Inr v)"

record Record =
  name :: string
  phones :: "string list"
  birthday :: "string option"

text \<open>
  A method of \<open>Record\<close> returns the exception it raised, if any, and the record as the
  call leaves it.
\<close>

definition Record_init :: "string \<Rightarrow> Record" where
  "Record_init n = \<lparr>name = n, phones = [], birthday = None\<rparr>"

definition add_phone :: "Record \<Rightarrow> string \<Rightarrow> error option \<times> Record" where
  "add_phone self phone_number =
     (case Phone_init phone_number of
        Inl e \<Rightarrow> (Some e, self)
      | Inr p \<Rightarrow> (None, self\<lparr>phones := phones self @ [p]\<rparr>))"

definition remove_phone :: "Record \<Rightarrow> string \<Rightarrow> error option \<times> Record" where
  "remove_phone self phone_number =
     (None, self\<lparr>phones := filter (\<lambda>phone. phone \<noteq> phone_number) (phones self)\<rparr>)"

text \<open>
  \<open>find_phone\<close> returns the first Phone object of the list with the given value, or None;
  the object is named here by its position in the list.
\<close>

fun first_index :: "string list \<Rightarrow> string \<Rightarrow> nat option" where
  "first_index [] v = None"
| "first_index (p # ps) v = (if p = v then Some 0 else map_option Suc (first_index ps v))"

definition find_phone :: "Record \<Rightarrow> string \<Rightarrow> nat option" where
  "find_phone self phone_number = first_index (phones self) phone_number"

text \<open>
  \<open>edit_phone\<close> assigns to \<open>phone.value\<close>: on None that raises AttributeError, on a
  Phone object it changes the value of that element of the list, and no check runs.
\<close>

definition edit_phone :: "Record \<Rightarrow> string \<Rightarrow> string \<Rightarrow> error option \<times> Record" where
  "edit_phone self old_number new_number =
     (case find_phone self old_number of
        None \<Rightarrow> (Some AttributeError, self)
      | Some i \<Rightarrow> (None, self\<lparr>phones := (phones self)[i := new_number]\<rparr>))"

definition add_birthday :: "Record \<Rightarrow> string \<Rightarrow> error option \<times> Record" where
  "add_birthday self b =
     (if birthday self \<noteq> None then (Some ValueError, self)
      else case Birthday_init b of
             Inl e \<Rightarrow> (Some e, self)
           | Inr v \<Rightarrow> (None, self\<lparr>birthday := Some v\<rparr>))"

section \<open>The address book\<close>

text \<open>
  \<open>AddressBook\<close> is a dictionary from names to records. A Python dictionary keeps its
  keys in the order of their first insertion, and \<open>values()\<close> runs through it in that
  order, so it is a list of pairs with distinct keys. Assigning to a key that is present
  replaces its value where it stands.
\<close>

type_synonym AddressBook = "(string \<times> Record) list"

fun dict_set :: "('k \<times> 'v) list \<Rightarrow> 'k \<Rightarrow> 'v \<Rightarrow> ('k \<times> 'v) list" where
  "dict_set [] k v = [(k, v)]"
| "dict_set ((k', v') # kvs) k v = (if k' = k then (k, v) # kvs else (k', v') # dict_set kvs k v)"

definition add_record :: "AddressBook \<Rightarrow> Record \<Rightarrow> AddressBook" where
  "add_record book record = dict_set book (name record) record"

definition find :: "AddressBook \<Rightarrow> string \<Rightarrow> Record option" where
  "find book n = map_of book n"

definition delete :: "AddressBook \<Rightarrow> string \<Rightarrow> error option \<times> AddressBook" where
  "delete book n =
     (if n \<in> set (map fst book) then (None, filter (\<lambda>(k, r). k \<noteq> n) book)
      else (Some KeyError, book))"

section \<open>\<open>get_birthdays_per_week\<close>\<close>

text \<open>
  \<open>birthdays\<close> is a \<open>defaultdict(list)\<close>: \<open>birthdays[weekday].append(name)\<close>
  appends to the list of a key that is present and makes a new key, after the others, with
  the one name otherwise.
\<close>

type_synonym buckets = "(string \<times> string list) list"

fun append_bucket :: "buckets \<Rightarrow> string \<Rightarrow> string \<Rightarrow> buckets" where
  "append_bucket [] k n = [(k, [n])]"
| "append_bucket ((k', ns) # bs) k n =
     (if k' = k then (k', ns @ [n]) # bs else (k', ns) # append_bucket bs k n)"

text \<open>
  Lines 98 to 101: the birthday, parsed, moved to the year of the window start (which the
  code calls \<open>today\<close>), and moved one more year when it is before the window start.
\<close>

definition birthday_this_year :: "date \<Rightarrow> string \<Rightarrow> error + date" where
  "birthday_this_year today b =
     (case strptime b of
        Inl e \<Rightarrow> Inl e
      | Inr bd \<Rightarrow>
          (case replace_year bd (year today) of
             Inl e \<Rightarrow> Inl e
           | Inr this_year \<Rightarrow>
               if date_less this_year today then replace_year this_year (year today + 1)
               else Inr this_year))"

text \<open>Line 103: the days from the window start to that date.\<close>

definition delta_days :: "date \<Rightarrow> string \<Rightarrow> error + int" where
  "delta_days today b =
     (case birthday_this_year today b of
        Inl e \<Rightarrow> Inl e
      | Inr d \<Rightarrow> Inr (toordinal d - toordinal today))"

text \<open>The body of the loop, lines 95 to 109, on one record and the buckets so far.\<close>

definition loop_body :: "date \<Rightarrow> Record \<Rightarrow> buckets \<Rightarrow> error + buckets" where
  "loop_body today record birthdays =
     (case birthday record of
        None \<Rightarrow> Inl AttributeError
      | Some b \<Rightarrow>
          if b \<noteq> [] then
            (case delta_days today b of
               Inl e \<Rightarrow> Inl e
             | Inr d \<Rightarrow>
                 if d < 7 then
                   (case add_days today d of
                      Inl e \<Rightarrow> Inl e
                    | Inr dt \<Rightarrow>
                        let weekday = strftime_A dt;
                            weekday = (if weekday \<in> set [''Saturday'', ''Sunday''] then ''Monday'' else weekday)
                        in Inr (append_bucket birthdays weekday (name record)))
                 else Inr birthdays)
          else Inr birthdays)"

fun loop :: "date \<Rightarrow> Record list \<Rightarrow> buckets \<Rightarrow> error + buckets" where
  "loop today [] birthdays = Inr birthdays"
| "loop today (record # records) birthdays =
     (case loop_body today record birthdays of
        Inl e \<Rightarrow> Inl e
      | Inr birthdays' \<Rightarrow> loop today records birthdays')"

text \<open>
  The method, with the date of the day as a parameter: the window start of line 90, then
  the loop over \<open>self.data.values()\<close> from no bucket at all.
\<close>

definition get_birthdays_per_week :: "date \<Rightarrow> AddressBook \<Rightarrow> error + buckets" where
  "get_birthdays_per_week today_date book =
     (case next_monday today_date of
        Inl e \<Rightarrow> Inl e
      | Inr today \<Rightarrow> loop today (map snd book) [])"

section \<open>Reading the book and the result\<close>

text \<open>
  \<open>add_record\<close> stores a record under its own name, and no method changes the name of
  a record: in a book built by the methods of \<open>AddressBook\<close> the keys are distinct and
  every record stands under its name.
\<close>

definition wf_book :: "AddressBook \<Rightarrow> bool" where
  "wf_book book = (distinct (map fst book) \<and> list_all (\<lambda>(k, r). name r = k) book)"

text \<open>A name is in the bucket of a weekday: \<open>n in birthdays.get(k, [])\<close>.\<close>

definition in_bucket :: "buckets \<Rightarrow> string \<Rightarrow> string \<Rightarrow> bool" where
  "in_bucket bs k n = (case map_of bs k of None \<Rightarrow> False | Some ns \<Rightarrow> n \<in> set ns)"

text \<open>The names of all the buckets, bucket after bucket.\<close>

definition all_names :: "buckets \<Rightarrow> string list" where
  "all_names bs = concat (map snd bs)"

text \<open>Lines 106 to 108 on their own: the key under which a date is filed.\<close>

definition bucket_name :: "date \<Rightarrow> string" where
  "bucket_name dt =
     (let weekday = strftime_A dt
      in if weekday \<in> set [''Saturday'', ''Sunday''] then ''Monday'' else weekday)"

text \<open>
  The key under which the loop body files a record, None when it files it nowhere or
  raises.
\<close>

definition placed :: "date \<Rightarrow> Record \<Rightarrow> string option" where
  "placed today record =
     (case birthday record of
        None \<Rightarrow> None
      | Some b \<Rightarrow>
          (case delta_days today b of
             Inl e \<Rightarrow> None
           | Inr d \<Rightarrow>
               if d < 7 then (case add_days today d of Inl e \<Rightarrow> None | Inr dt \<Rightarrow> Some (bucket_name dt))
               else None))"

text \<open>
  A valid DD.MM.YYYY string, in the words of the specification: two digits, a dot, two
  digits, a dot and four digits, which are the day, the month and the year of a date of
  the calendar.
\<close>

definition valid_ddmmyyyy :: "string \<Rightarrow> bool" where
  "valid_ddmmyyyy s =
     (length s = 10 \<and> s ! 2 = CHR ''.'' \<and> s ! 5 = CHR ''.''
      \<and> list_all (\<lambda>i. s ! i \<in> set digits) [0, 1, 3, 4, 6, 7, 8, 9]
      \<and> (let d = 10 * digit_val (s ! 0) + digit_val (s ! 1);
              m = 10 * digit_val (s ! 3) + digit_val (s ! 4);
              y = 1000 * digit_val (s ! 6) + 100 * digit_val (s ! 7) + 10 * digit_val (s ! 8)
                  + digit_val (s ! 9)
          in 1 \<le> y \<and> 1 \<le> m \<and> m \<le> 12 \<and> 1 \<le> d \<and> d \<le> days_in_month y m))"

section \<open>Two address books to run the method on\<close>

text \<open>
  Wednesday 12 June 2024: the window starts on Monday 17 June. Alice's birthday falls on
  the Wednesday of the window, Bob's on its Saturday, Carol's ten days after its start,
  Dave's on 1 January, Eve's on the window start itself and Frank's on its Sunday.
\<close>

definition june_today :: date where
  "june_today = \<lparr>year = 2024, month = 6, day = 12\<rparr>"

definition june_monday :: date where
  "june_monday = \<lparr>year = 2024, month = 6, day = 17\<rparr>"

definition alice :: Record where
  "alice = \<lparr>name = ''Alice'', phones = [''0123456789''], birthday = Some ''19.06.1990''\<rparr>"

definition bob :: Record where
  "bob = \<lparr>name = ''Bob'', phones = [], birthday = Some ''22.06.1985''\<rparr>"

definition carol :: Record where
  "carol = \<lparr>name = ''Carol'', phones = [], birthday = Some ''27.06.1985''\<rparr>"

definition dave :: Record where
  "dave = \<lparr>name = ''Dave'', phones = [], birthday = Some ''01.01.1980''\<rparr>"

definition eve :: Record where
  "eve = \<lparr>name = ''Eve'', phones = [], birthday = Some ''17.06.1980''\<rparr>"

definition frank :: Record where
  "frank = \<lparr>name = ''Frank'', phones = [], birthday = Some ''23.06.1970''\<rparr>"

definition june_book :: AddressBook where
  "june_book = [(''Alice'', alice), (''Bob'', bob), (''Carol'', carol), (''Dave'', dave),
                (''Eve'', eve), (''Frank'', frank)]"

definition june_result :: buckets where
  "june_result = [(''Wednesday'', [''Alice'']), (''Monday'', [''Bob'', ''Eve'', ''Frank''])]"

text \<open>A second record with Alice's name, another phone and no birthday.\<close>

definition alice_again :: Record where
  "alice_again = \<lparr>name = ''Alice'', phones = [''9999999999''], birthday = None\<rparr>"





section \<open>Properties of the calendar\<close>

lemma mod_100_4: "(y::int) mod 100 = 0 \<Longrightarrow> y mod 4 = 0"
proof -
  assume "y mod 100 = 0"
  then have "100 dvd y" by (simp add: mod_eq_0_iff_dvd)
  moreover have "(4::int) dvd 100" by simp
  ultimately have "4 dvd y" using dvd_trans by blast
  then show ?thesis by (simp add: mod_eq_0_iff_dvd)
qed

lemma mod_400_100: "(y::int) mod 400 = 0 \<Longrightarrow> y mod 100 = 0"
proof -
  assume "y mod 400 = 0"
  then have "400 dvd y" by (simp add: mod_eq_0_iff_dvd)
  moreover have "(100::int) dvd 400" by simp
  ultimately have "100 dvd y" using dvd_trans by blast
  then show ?thesis by (simp add: mod_eq_0_iff_dvd)
qed

lemma div_step:
  assumes "0 < (k::int)"
  shows "y div k = (y - 1) div k + (if y mod k = 0 then 1 else 0)"
proof -
  define q where "q = (y - 1) div k"
  define r where "r = (y - 1) mod k"
  have y: "y = k * q + r + 1" by (simp add: q_def r_def)
  have r: "0 \<le> r" "r < k" using assms by (simp_all add: r_def)
  show ?thesis
  proof (cases "r + 1 = k")
    case True
    then have "y = k * (q + 1)" using y by (simp add: algebra_simps)
    then have "y div k = q + 1" "y mod k = 0" using assms by simp_all
    then show ?thesis by (simp add: q_def)
  next
    case False
    with r have r1: "0 \<le> r + 1" "r + 1 < k" by simp_all
    have y': "y = k * q + (r + 1)" using y by simp
    have "y div k = q" using int_div_pos_eq [OF y' r1] .
    moreover have "y mod k = r + 1" using int_mod_pos_eq [OF y' r1] .
    ultimately show ?thesis using r by (simp add: q_def)
  qed
qed

lemma leap_count:
  fixes A B C :: bool
  assumes "B \<Longrightarrow> A" "C \<Longrightarrow> B"
  shows "365 + (if A then 1 else 0) - (if B then 1 else 0) + (if C then 1 else 0)
         = (if A \<and> (\<not> B \<or> C) then 366 else (365::int))"
  using assms by (cases A; cases B; cases C) simp_all

lemma days_before_year_step:
  "days_before_year (y + 1) = days_before_year y + (if is_leap y then 366 else 365)"
proof -
  define a :: int where "a = (if y mod 4 = 0 then 1 else 0)"
  define b :: int where "b = (if y mod 100 = 0 then 1 else 0)"
  define c :: int where "c = (if y mod 400 = 0 then 1 else 0)"
  define p4 where "p4 = (y - 1) div 4"
  define p100 where "p100 = (y - 1) div 100"
  define p400 where "p400 = (y - 1) div 400"
  have d4: "y div 4 = p4 + a" unfolding a_def p4_def by (rule div_step) simp
  have d100: "y div 100 = p100 + b" unfolding b_def p100_def by (rule div_step) simp
  have d400: "y div 400 = p400 + c" unfolding c_def p400_def by (rule div_step) simp
  have "days_before_year (y + 1) = y * 365 + y div 4 - y div 100 + y div 400"
    by (simp add: days_before_year_def)
  also have "\<dots> = y * 365 + (p4 + a) - (p100 + b) + (p400 + c)"
    by (simp only: d4 d100 d400)
  also have "\<dots> = days_before_year y + (365 + a - b + c)"
    unfolding days_before_year_def p4_def [symmetric] p100_def [symmetric] p400_def [symmetric]
    by (simp add: algebra_simps)
  also have "365 + a - b + c = (if is_leap y then 366 else 365)"
    unfolding a_def b_def c_def is_leap_def
    by (rule leap_count) (erule mod_100_4, erule mod_400_100)
  finally show ?thesis .
qed

lemma month_cases:
  assumes "1 \<le> m" "m \<le> 12"
  shows "m = 1 \<or> m = 2 \<or> m = 3 \<or> m = 4 \<or> m = 5 \<or> m = 6 \<or> m = 7 \<or> m = 8 \<or> m = 9 \<or> m = 10
         \<or> m = 11 \<or> m = (12::int)"
  using assms by arith

lemma valid_md_next_day: "valid_md d \<Longrightarrow> valid_md (next_day d)"
  by (auto simp: valid_md_def next_day_def days_in_month_def)

lemma toordinal_next_day:
  assumes "valid_md d"
  shows "toordinal (next_day d) = toordinal d + 1"
proof -
  from assms have m: "1 \<le> month d" "month d \<le> 12" and dd: "day d \<le> days_in_month (year d) (month d)"
    by (simp_all add: valid_md_def)
  show ?thesis
  proof (cases "day d < days_in_month (year d) (month d)")
    case True
    then show ?thesis by (simp add: next_day_def toordinal_def)
  next
    case False
    with dd have e: "day d = days_in_month (year d) (month d)" by simp
    show ?thesis
    proof (cases "month d < 12")
      case True
      with month_cases [OF m] e show ?thesis
        by (auto simp: next_day_def toordinal_def days_before_month_def days_in_month_def)
    next
      case False
      with m have "month d = 12" by simp
      with e show ?thesis
        by (simp add: next_day_def toordinal_def days_before_month_def days_in_month_def
            days_before_year_step)
    qed
  qed
qed

lemma walk_next_day:
  "valid_md d \<Longrightarrow> valid_md (walk next_day n d) \<and> toordinal (walk next_day n d) = toordinal d + int n"
proof (induction n arbitrary: d)
  case 0
  then show ?case by simp
next
  case (Suc n)
  from Suc.prems have "valid_md (next_day d)" by (rule valid_md_next_day)
  from Suc.IH [OF this] Suc.prems show ?case
    by (simp add: toordinal_next_day)
qed

lemma days_before_year_mono_step: "0 \<le> k \<Longrightarrow> days_before_year y \<le> days_before_year (y + k)"
proof (induction k rule: int_ge_induct)
  case base
  then show ?case by simp
next
  case (step i)
  have "days_before_year (y + (i + 1)) = days_before_year ((y + i) + 1)" by (simp add: add.assoc)
  also have "\<dots> \<ge> days_before_year (y + i)" by (simp add: days_before_year_step)
  finally show ?case using step.IH by simp
qed

lemma days_before_year_mono: "y \<le> z \<Longrightarrow> days_before_year y \<le> days_before_year z"
  using days_before_year_mono_step [of "z - y" y] by simp

lemma days_before_year_1: "days_before_year 1 = 0"
  by (simp add: days_before_year_def)

lemma days_before_year_10000: "days_before_year 10000 = 3652059"
  by (simp add: days_before_year_def)

lemma days_before_month_bounds:
  assumes "1 \<le> m" "m \<le> 12"
  shows "0 \<le> days_before_month y m"
    and "days_before_month y m + days_in_month y m \<le> (if is_leap y then 366 else 365)"
  using month_cases [OF assms]
  by (auto simp: days_before_month_def days_in_month_def)

lemma toordinal_lower: "valid_md d \<Longrightarrow> days_before_year (year d) < toordinal d"
  using days_before_month_bounds(1) [of "month d" "year d"]
  by (simp add: valid_md_def toordinal_def)

lemma toordinal_upper: "valid_md d \<Longrightarrow> toordinal d \<le> days_before_year (year d + 1)"
  using days_before_month_bounds(2) [of "month d" "year d"]
  by (simp add: valid_md_def toordinal_def days_before_year_step split: if_splits)

lemma toordinal_pos: "valid_md d \<Longrightarrow> 1 \<le> year d \<Longrightarrow> 0 < toordinal d"
  using toordinal_lower [of d] days_before_year_mono [of 1 "year d"]
  by (simp add: days_before_year_1)

lemma toordinal_le_max: "valid_date d \<Longrightarrow> toordinal d \<le> max_ordinal"
  using toordinal_upper [of d] days_before_year_mono [of "year d + 1" 10000]
  by (simp add: valid_date_def days_before_year_10000 max_ordinal_def)

lemma year_le_of_ordinal:
  assumes "valid_md d" "toordinal d \<le> max_ordinal"
  shows "year d \<le> 9999"
proof (rule ccontr)
  assume "\<not> year d \<le> 9999"
  then have "10000 \<le> year d" by simp
  then have "3652059 \<le> days_before_year (year d)"
    using days_before_year_mono [of 10000 "year d"] by (simp add: days_before_year_10000)
  with toordinal_lower [OF assms(1)] assms(2) show False by (simp add: max_ordinal_def)
qed

lemma year_next_day: "year d \<le> year (next_day d)"
  by (simp add: next_day_def)

lemma year_walk_next_day: "year d \<le> year (walk next_day n d)"
proof (induction n arbitrary: d)
  case 0
  then show ?case by simp
next
  case (Suc n)
  have "year d \<le> year (next_day d)" by (rule year_next_day)
  also have "\<dots> \<le> year (walk next_day n (next_day d))" by (rule Suc.IH)
  finally show ?case by simp
qed

lemma add_days_nonneg:
  assumes "valid_date d" "0 \<le> n" "add_days d n = Inr e"
  shows "valid_date e \<and> toordinal e = toordinal d + n"
proof -
  from assms(1) have v: "valid_md d" and y: "1 \<le> year d" by (simp_all add: valid_date_def)
  from assms(3) have r: "toordinal d + n \<le> max_ordinal" and e: "e = walk next_day (nat n) d"
    using assms(2) by (auto simp: add_days_def Let_def split: if_splits)
  from walk_next_day [OF v, of "nat n"] e assms(2)
  have ve: "valid_md e" and oe: "toordinal e = toordinal d + n" by simp_all
  from year_walk_next_day [of d "nat n"] e y have "1 \<le> year e" by simp
  moreover from year_le_of_ordinal [OF ve] oe r have "year e \<le> 9999" by simp
  ultimately show ?thesis using ve oe by (simp add: valid_date_def)
qed

lemma add_days_returns:
  assumes "valid_date d" "0 \<le> n" "toordinal d + n \<le> max_ordinal"
  shows "\<exists>e. add_days d n = Inr e"
  using assms toordinal_pos [of d] by (simp add: add_days_def valid_date_def Let_def)

lemma monday_arith: "((t::int) + (7 - (t + 6) mod 7) mod 7 + 6) mod 7 = 0"
  by presburger

lemma add_days_zero: "valid_date d \<Longrightarrow> add_days d 0 = Inr d"
  using toordinal_pos [of d] toordinal_le_max [of d]
  by (simp add: add_days_def valid_date_def)


lemma next_monday_props:
  assumes "valid_date today" "next_monday today = Inr ws"
  shows "valid_date ws" "toordinal ws = toordinal today + (7 - weekday today) mod 7" "weekday ws = 0"
proof -
  have n: "0 \<le> (7 - weekday today) mod 7" by simp
  from add_days_nonneg [OF assms(1) n] assms(2)
  show v: "valid_date ws" and o: "toordinal ws = toordinal today + (7 - weekday today) mod 7"
    by (simp_all add: next_monday_def)
  show "weekday ws = 0"
    unfolding weekday_def [of ws] o unfolding weekday_def by (rule monday_arith)
qed

section \<open>C2: the window start\<close>

text \<open>
  C2, as stated, fails on a Monday: 1 January 2024 is a Monday (weekday 0), line 90 adds
  \<open>(7 - 0) mod 7 = 0\<close> days, and the window start is that same day, not the day seven
  days later.
\<close>

theorem next_monday_on_monday_counterexample:
  "weekday \<lparr>year = 2024, month = 1, day = 1\<rparr> = 0
   \<and> next_monday \<lparr>year = 2024, month = 1, day = 1\<rparr> = Inr \<lparr>year = 2024, month = 1, day = 1\<rparr>
   \<and> add_days \<lparr>year = 2024, month = 1, day = 1\<rparr> 7 = Inr \<lparr>year = 2024, month = 1, day = 8\<rparr>
   \<and> next_monday \<lparr>year = 2024, month = 1, day = 1\<rparr> \<noteq> add_days \<lparr>year = 2024, month = 1, day = 1\<rparr> 7"
  by code_simp

text \<open>
  C2, amended: the window start is \<open>today + ((7 - weekday today) mod 7)\<close> days, with
  weekday 0 for Monday to 6 for Sunday; it is a Monday; and when today is itself a Monday
  the window start is today. The sum is a date unless it passes 31.12.9999.
\<close>

theorem next_monday_window_start:
  assumes "valid_date today"
    and "toordinal today + (7 - weekday today) mod 7 \<le> max_ordinal"
  shows "\<exists>ws. next_monday today = Inr ws \<and> valid_date ws
           \<and> toordinal ws = toordinal today + (7 - weekday today) mod 7
           \<and> weekday ws = 0
           \<and> (weekday today = 0 \<longrightarrow> ws = today)"
proof -
  have n: "0 \<le> (7 - weekday today) mod 7" by simp
  from add_days_returns [OF assms(1) n assms(2)]
  obtain ws where ws: "next_monday today = Inr ws" by (auto simp: next_monday_def)
  have "weekday today = 0 \<longrightarrow> ws = today"
  proof
    assume "weekday today = 0"
    then have "next_monday today = add_days today 0" by (simp add: next_monday_def)
    with add_days_zero [OF assms(1)] ws show "ws = today" by simp
  qed
  with ws next_monday_props [OF assms(1) ws] show ?thesis by simp
qed

theorem next_monday_window_start_witness:
  "valid_date \<lparr>year = 2024, month = 1, day = 1\<rparr>
   \<and> toordinal \<lparr>year = 2024, month = 1, day = 1\<rparr>
       + (7 - weekday \<lparr>year = 2024, month = 1, day = 1\<rparr>) mod 7 \<le> max_ordinal
   \<and> weekday \<lparr>year = 2024, month = 1, day = 1\<rparr> = 0
   \<and> next_monday \<lparr>year = 2024, month = 1, day = 1\<rparr> = Inr \<lparr>year = 2024, month = 1, day = 1\<rparr>"
proof -
  have v: "valid_date \<lparr>year = 2024, month = 1, day = 1\<rparr>" by code_simp
  have w: "weekday \<lparr>year = 2024, month = 1, day = 1\<rparr> = 0" by code_simp
  have r: "toordinal \<lparr>year = 2024, month = 1, day = 1\<rparr>
           + (7 - weekday \<lparr>year = 2024, month = 1, day = 1\<rparr>) mod 7 \<le> max_ordinal" by code_simp
  from next_monday_window_start [OF v r] w v r show ?thesis by auto
qed

section \<open>C1: a contact with no birthday\<close>

text \<open>
  C1 says that a contact whose birthday is not set is skipped without an error. The code
  reads \<open>record.birthday.value\<close> before it tests \<open>if birthday:\<close>, and the
  birthday of such a contact is None: on the book that the command \<open>add Alice 0123456789\<close>
  leaves, the method raises AttributeError and returns no mapping at all.
\<close>

theorem get_birthdays_per_week_no_birthday_raises:
  "get_birthdays_per_week \<lparr>year = 2024, month = 6, day = 12\<rparr>
     (add_record [] (snd (add_phone (Record_init ''Alice'') ''0123456789'')))
   = Inl AttributeError"
  by code_simp

section \<open>C3: a birthday on 29 February\<close>

text \<open>
  C3 says that the method raises nothing when every birthday that is set is a date of the
  calendar, 29 February included. \<open>29.02.2000\<close> is accepted by \<open>add_birthday\<close>; on
  14 June 2023 the window starts in 2023, \<open>replace(year=2023)\<close> has no 29 February to
  build, and the method raises ValueError.
\<close>

theorem get_birthdays_per_week_feb_29_raises:
  "add_birthday (Record_init ''Alice'') ''29.02.2000''
     = (None, \<lparr>name = ''Alice'', phones = [], birthday = Some ''29.02.2000''\<rparr>)
   \<and> get_birthdays_per_week \<lparr>year = 2023, month = 6, day = 14\<rparr>
         (add_record [] (snd (add_birthday (Record_init ''Alice'') ''29.02.2000'')))
       = Inl ValueError"
  by code_simp

section \<open>C4: the phones of a record\<close>

text \<open>
  C4 says that every phone of a record is ten digits and that \<open>edit_phone\<close> keeps it so.
  \<open>add_phone\<close> builds a \<open>Phone\<close>, which checks the string; \<open>edit_phone\<close> assigns
  the new string to the value of the Phone it found and checks nothing: after
  \<open>edit_phone("1234567890", "abc")\<close> the phone of the record is \<open>abc\<close>.
\<close>

theorem edit_phone_stores_invalid_phone:
  "add_phone (Record_init ''Alice'') ''1234567890''
     = (None, \<lparr>name = ''Alice'', phones = [''1234567890''], birthday = None\<rparr>)
   \<and> edit_phone \<lparr>name = ''Alice'', phones = [''1234567890''], birthday = None\<rparr> ''1234567890'' ''abc''
     = (None, \<lparr>name = ''Alice'', phones = [''abc''], birthday = None\<rparr>)
   \<and> \<not> Phone_validate ''abc''
   \<and> add_phone (Record_init ''Alice'') ''abc'' = (Some ValueError, Record_init ''Alice'')"
  by code_simp

section \<open>Properties of the buckets\<close>

lemma map_of_append_bucket:
  "map_of (append_bucket bs k n) =
     (map_of bs)(k \<mapsto> (case map_of bs k of None \<Rightarrow> [n] | Some ns \<Rightarrow> ns @ [n]))"
  by (induction bs k n rule: append_bucket.induct) (auto simp: fun_eq_iff)

lemma in_bucket_append_bucket:
  "in_bucket (append_bucket bs k n) k' x \<longleftrightarrow> in_bucket bs k' x \<or> (k' = k \<and> x = n)"
  by (auto simp: in_bucket_def map_of_append_bucket split: option.splits)

lemma keys_append_bucket:
  "map fst (append_bucket bs k n) = (if k \<in> set (map fst bs) then map fst bs else map fst bs @ [k])"
  by (induction bs k n rule: append_bucket.induct) auto

lemma distinct_keys_append_bucket:
  "distinct (map fst bs) \<Longrightarrow> distinct (map fst (append_bucket bs k n))"
  by (simp add: keys_append_bucket)

lemma set_all_names_append_bucket:
  "set (all_names (append_bucket bs k n)) = insert n (set (all_names bs))"
  by (induction bs k n rule: append_bucket.induct) (auto simp: all_names_def)

lemma all_names_Cons: "all_names (b # bs) = snd b @ all_names bs"
  by (simp add: all_names_def)

lemma all_names_Nil: "all_names [] = []"
  by (simp add: all_names_def)

lemma distinct_all_names_append_bucket:
  "distinct (all_names bs) \<Longrightarrow> n \<notin> set (all_names bs) \<Longrightarrow> distinct (all_names (append_bucket bs k n))"
proof (induction bs k n rule: append_bucket.induct)
  case (1 k n)
  then show ?case by (simp add: all_names_Cons all_names_Nil)
next
  case (2 k' ns bs k n)
  show ?case
  proof (cases "k' = k")
    case True
    with "2.prems" show ?thesis by (auto simp: all_names_Cons)
  next
    case False
    with "2.prems" "2.IH" have "distinct (all_names (append_bucket bs k n))"
      by (simp add: all_names_Cons)
    with False "2.prems" show ?thesis
      by (auto simp: all_names_Cons set_all_names_append_bucket)
  qed
qed

lemma set_keys_append_bucket:
  "set (map fst (append_bucket bs k n)) = insert k (set (map fst bs))"
  by (auto simp: keys_append_bucket)

lemma in_bucket_all_names: "in_bucket bs k x \<Longrightarrow> x \<in> set (all_names bs)"
  by (auto simp: in_bucket_def all_names_def split: option.splits dest!: map_of_SomeD) force

lemma all_names_in_bucket:
  assumes "x \<in> set (all_names bs)" "distinct (map fst bs)"
  shows "\<exists>k. in_bucket bs k x"
proof -
  from assms(1) obtain k ns where "(k, ns) \<in> set bs" "x \<in> set ns"
    by (auto simp: all_names_def)
  with assms(2) have "in_bucket bs k x" by (simp add: in_bucket_def)
  then show ?thesis ..
qed

section \<open>Properties of the loop\<close>

lemma strptime_empty: "strptime [] = Inl ValueError"
  by code_simp

lemma delta_days_empty: "delta_days today [] = Inl ValueError"
  by (simp add: delta_days_def birthday_this_year_def strptime_empty)

lemma loop_body_Inr:
  assumes "loop_body today r bs = Inr bs'"
  shows "bs' = (case placed today r of None \<Rightarrow> bs | Some k \<Rightarrow> append_bucket bs k (name r))"
  using assms
  by (auto simp: loop_body_def placed_def bucket_name_def Let_def delta_days_empty
      split: option.splits sum.splits if_splits)

lemma loop_body_birthday:
  "loop_body today r bs = Inr bs' \<Longrightarrow> birthday r \<noteq> None"
  by (auto simp: loop_body_def split: option.splits)

lemma loop_in_bucket:
  "loop today rs bs = Inr bs' \<Longrightarrow>
   in_bucket bs' k x \<longleftrightarrow> in_bucket bs k x \<or> (\<exists>r \<in> set rs. name r = x \<and> placed today r = Some k)"
proof (induction rs arbitrary: bs)
  case Nil
  then show ?case by simp
next
  case (Cons r rs)
  from Cons.prems obtain bs1 where b: "loop_body today r bs = Inr bs1" and l: "loop today rs bs1 = Inr bs'"
    by (auto split: sum.splits)
  from loop_body_Inr [OF b]
  have "in_bucket bs1 k x \<longleftrightarrow> in_bucket bs k x \<or> (name r = x \<and> placed today r = Some k)"
    by (auto simp: in_bucket_append_bucket split: option.splits)
  with Cons.IH [OF l] show ?case by auto
qed

lemma loop_keys:
  "loop today rs bs = Inr bs' \<Longrightarrow>
   set (map fst bs') = set (map fst bs) \<union> {k. \<exists>r \<in> set rs. placed today r = Some k}"
proof (induction rs arbitrary: bs)
  case Nil
  then show ?case by simp
next
  case (Cons r rs)
  from Cons.prems obtain bs1 where b: "loop_body today r bs = Inr bs1" and l: "loop today rs bs1 = Inr bs'"
    by (auto split: sum.splits)
  from loop_body_Inr [OF b]
  have "set (map fst bs1) = set (map fst bs) \<union> {k. placed today r = Some k}"
    by (auto simp: set_keys_append_bucket simp del: set_map split: option.splits)
  with Cons.IH [OF l] show ?case by auto
qed

lemma loop_distinct_keys:
  "loop today rs bs = Inr bs' \<Longrightarrow> distinct (map fst bs) \<Longrightarrow> distinct (map fst bs')"
proof (induction rs arbitrary: bs)
  case Nil
  then show ?case by simp
next
  case (Cons r rs)
  from Cons.prems obtain bs1 where b: "loop_body today r bs = Inr bs1" and l: "loop today rs bs1 = Inr bs'"
    by (auto split: sum.splits)
  from loop_body_Inr [OF b] Cons.prems(2) have "distinct (map fst bs1)"
    by (auto simp: distinct_keys_append_bucket split: option.splits)
  with Cons.IH [OF l] show ?case by simp
qed

lemma loop_all_names:
  "loop today rs bs = Inr bs' \<Longrightarrow>
   set (all_names bs') = set (all_names bs) \<union> {name r |r. r \<in> set rs \<and> placed today r \<noteq> None}"
proof (induction rs arbitrary: bs)
  case Nil
  then show ?case by simp
next
  case (Cons r rs)
  from Cons.prems obtain bs1 where b: "loop_body today r bs = Inr bs1" and l: "loop today rs bs1 = Inr bs'"
    by (auto split: sum.splits)
  from loop_body_Inr [OF b]
  have "set (all_names bs1) = set (all_names bs) \<union> {name r |r'. r' = r \<and> placed today r \<noteq> None}"
    by (auto simp: set_all_names_append_bucket split: option.splits)
  with Cons.IH [OF l] show ?case by auto
qed

lemma loop_distinct_names:
  "loop today rs bs = Inr bs' \<Longrightarrow> distinct (map name rs) \<Longrightarrow> distinct (all_names bs) \<Longrightarrow>
   set (map name rs) \<inter> set (all_names bs) = {} \<Longrightarrow> distinct (all_names bs')"
proof (induction rs arbitrary: bs)
  case Nil
  then show ?case by simp
next
  case (Cons r rs)
  from Cons.prems(1) obtain bs1 where b: "loop_body today r bs = Inr bs1" and l: "loop today rs bs1 = Inr bs'"
    by (auto split: sum.splits)
  from Cons.prems have fresh: "name r \<notin> set (all_names bs)" and nr: "name r \<notin> set (map name rs)"
    and d: "distinct (map name rs)" and disj: "set (map name rs) \<inter> set (all_names bs) = {}"
    by auto
  from loop_body_Inr [OF b] fresh Cons.prems(3) have d1: "distinct (all_names bs1)"
    by (auto simp: distinct_all_names_append_bucket split: option.splits)
  from loop_body_Inr [OF b] have "set (all_names bs1) \<subseteq> insert (name r) (set (all_names bs))"
    by (auto simp: set_all_names_append_bucket split: option.splits)
  with nr disj have "set (map name rs) \<inter> set (all_names bs1) = {}" by blast
  from Cons.IH [OF l d d1 this] show ?case .
qed

section \<open>Properties of \<open>delta_days\<close>\<close>

lemma mk_date_Inr:
  "mk_date y m d = Inr dt \<Longrightarrow> valid_date dt \<and> year dt = y \<and> month dt = m \<and> day dt = d"
  by (auto simp: mk_date_def valid_date_def valid_md_def split: if_splits)

lemma replace_year_Inr:
  "replace_year d y = Inr dt \<Longrightarrow> valid_date dt \<and> year dt = y \<and> month dt = month d \<and> day dt = day d"
  by (simp add: replace_year_def mk_date_Inr)

lemma strptime_Inr: "strptime s = Inr dt \<Longrightarrow> valid_date dt"
  by (auto simp: strptime_def mk_date_Inr split: list.splits if_splits)

lemma days_in_month_pos: "0 < days_in_month y m"
  by (simp add: days_in_month_def)

lemma days_before_month_Suc:
  assumes "1 \<le> m" "m < 12"
  shows "days_before_month y (m + 1) = days_before_month y m + days_in_month y m"
proof -
  from assms have "1 \<le> m" "m \<le> 12" by simp_all
  from month_cases [OF this] assms(2) show ?thesis
    by (auto simp: days_before_month_def days_in_month_def)
qed

lemma days_before_month_mono_step:
  "0 \<le> k \<Longrightarrow> 1 \<le> m \<Longrightarrow> m + k \<le> 12 \<Longrightarrow> days_before_month y m \<le> days_before_month y (m + k)"
proof (induction k rule: int_ge_induct)
  case base
  then show ?case by simp
next
  case (step i)
  then have "days_before_month y m \<le> days_before_month y (m + i)" by simp
  also have "\<dots> \<le> days_before_month y ((m + i) + 1)"
    using step.hyps step.prems days_in_month_pos [of y "m + i"]
    by (simp add: days_before_month_Suc)
  finally show ?case by (simp add: add.assoc)
qed

lemma days_before_month_less:
  assumes "1 \<le> m1" "m1 < m2" "m2 \<le> 12"
  shows "days_before_month y m1 + days_in_month y m1 \<le> days_before_month y m2"
proof -
  from assms have "days_before_month y m1 + days_in_month y m1 = days_before_month y (m1 + 1)"
    by (simp add: days_before_month_Suc)
  also have "\<dots> \<le> days_before_month y ((m1 + 1) + (m2 - (m1 + 1)))"
    using assms by (intro days_before_month_mono_step) simp_all
  finally show ?thesis by simp
qed

lemma same_year_not_less:
  assumes "valid_md a" "valid_md b" "year a = year b" "\<not> date_less a b"
  shows "toordinal b \<le> toordinal a"
proof (cases "month b < month a")
  case True
  from assms(2) have "1 \<le> month b" and db: "day b \<le> days_in_month (year b) (month b)"
    by (simp_all add: valid_md_def)
  moreover from assms(1) have "month a \<le> 12" and da: "1 \<le> day a" by (simp_all add: valid_md_def)
  ultimately have "days_before_month (year b) (month b) + days_in_month (year b) (month b)
      \<le> days_before_month (year b) (month a)"
    using True by (intro days_before_month_less) simp_all
  with db da assms(3) show ?thesis by (simp add: toordinal_def)
next
  case False
  with assms(3,4) have "month a = month b" "day b \<le> day a" by (auto simp: date_less_def)
  with assms(3) show ?thesis by (simp add: toordinal_def)
qed

lemma next_year_after:
  assumes "valid_md a" "valid_md b" "year a = year b + 1"
  shows "toordinal b < toordinal a"
  using toordinal_upper [OF assms(2)] toordinal_lower [OF assms(1)] assms(3) by simp

lemma valid_date_md: "valid_date d \<Longrightarrow> valid_md d"
  by (simp add: valid_date_def)

text \<open>The date that lines 98 to 101 compute is a date on or after the window start.\<close>

lemma birthday_this_year_Inr:
  assumes "valid_date today" "birthday_this_year today b = Inr occ"
  shows "valid_date occ \<and> toordinal today \<le> toordinal occ"
proof -
  from assms(2) obtain bd where bd: "strptime b = Inr bd"
    by (auto simp: birthday_this_year_def split: sum.splits)
  with assms(2) obtain a where a: "replace_year bd (year today) = Inr a"
    by (auto simp: birthday_this_year_def split: sum.splits)
  from replace_year_Inr [OF a] have va: "valid_date a" and ya: "year a = year today" by simp_all
  note vt = valid_date_md [OF assms(1)]
  show ?thesis
  proof (cases "date_less a today")
    case True
    with assms(2) bd a have occ: "replace_year a (year today + 1) = Inr occ"
      by (simp add: birthday_this_year_def)
    from replace_year_Inr [OF occ] have vo: "valid_date occ" and yo: "year occ = year today + 1"
      by simp_all
    from next_year_after [OF valid_date_md [OF vo] vt yo] vo show ?thesis by simp
  next
    case False
    with assms(2) bd a have "occ = a" by (simp add: birthday_this_year_def)
    with same_year_not_less [OF valid_date_md [OF va] vt ya False] va show ?thesis by simp
  qed
qed

lemma delta_days_Inr:
  "delta_days today b = Inr d \<longleftrightarrow>
   (\<exists>occ. birthday_this_year today b = Inr occ \<and> d = toordinal occ - toordinal today)"
  by (auto simp: delta_days_def split: sum.splits)

lemma delta_days_nonneg:
  assumes "valid_date today" "delta_days today b = Inr d"
  shows "0 \<le> d"
  using assms birthday_this_year_Inr [OF assms(1)] by (auto simp: delta_days_Inr)

lemma weekday_range: "0 \<le> weekday d \<and> weekday d < 7"
  by (simp add: weekday_def)

lemma weekday_shift_arith: "((t::int) + 6) mod 7 = 0 \<Longrightarrow> 0 \<le> d \<Longrightarrow> d < 7 \<Longrightarrow> (t + d + 6) mod 7 = d"
  by presburger

lemma strftime_A_cong: "weekday a = weekday b \<Longrightarrow> strftime_A a = strftime_A b"
  by (simp add: strftime_A_def)

lemma bucket_name_cong: "weekday a = weekday b \<Longrightarrow> bucket_name a = bucket_name b"
  by (simp add: bucket_name_def strftime_A_cong [of a b])

lemma bucket_name_not_weekend: "bucket_name dt \<noteq> ''Saturday'' \<and> bucket_name dt \<noteq> ''Sunday''"
  by (simp add: bucket_name_def Let_def)

lemma bucket_name_monday: "weekday dt = 0 \<Longrightarrow> bucket_name dt = ''Monday''"
  by (simp add: bucket_name_def strftime_A_def day_names_def)

lemma bucket_name_weekend: "weekday dt = 5 \<or> weekday dt = 6 \<Longrightarrow> bucket_name dt = ''Monday''"
  by (auto simp: bucket_name_def strftime_A_def day_names_def)

text \<open>
  Within the window, \<open>today + timedelta(days=d)\<close> is a date with the ordinal, and so the
  weekday, of the occurrence that \<open>d\<close> was computed from.
\<close>

lemma add_days_in_window:
  assumes "valid_date today" "valid_date occ" "d = toordinal occ - toordinal today" "0 \<le> d"
  shows "\<exists>dt. add_days today d = Inr dt \<and> weekday dt = weekday occ"
proof -
  from assms(3) have "toordinal today + d = toordinal occ" by simp
  with toordinal_le_max [OF assms(2)] have "toordinal today + d \<le> max_ordinal" by simp
  from add_days_returns [OF assms(1,4) this] obtain dt where dt: "add_days today d = Inr dt" ..
  from add_days_nonneg [OF assms(1,4) dt] assms(3) have "toordinal dt = toordinal occ" by simp
  then have "weekday dt = weekday occ" by (simp add: weekday_def)
  with dt show ?thesis by simp
qed


text \<open>Where the loop body files a record with a birthday, in terms of that date.\<close>

lemma placed_iff:
  assumes "valid_date today" "birthday r = Some b"
  shows "placed today r = Some k \<longleftrightarrow>
         (\<exists>occ. birthday_this_year today b = Inr occ \<and> toordinal occ - toordinal today < 7
                \<and> k = bucket_name occ)"
proof
  assume "placed today r = Some k"
  with assms(2) obtain d dt where d: "delta_days today b = Inr d" "d < 7"
    and dt: "add_days today d = Inr dt" and k: "k = bucket_name dt"
    by (auto simp: placed_def split: sum.splits if_splits)
  from d(1) obtain occ where occ: "birthday_this_year today b = Inr occ"
    and de: "d = toordinal occ - toordinal today"
    by (auto simp: delta_days_Inr)
  from birthday_this_year_Inr [OF assms(1) occ] de have vo: "valid_date occ" and d0: "0 \<le> d" by simp_all
  from add_days_in_window [OF assms(1) vo de d0] dt have "weekday dt = weekday occ" by simp
  then have "bucket_name dt = bucket_name occ" by (rule bucket_name_cong)
  with occ d(2) de k show "\<exists>occ. birthday_this_year today b = Inr occ
      \<and> toordinal occ - toordinal today < 7 \<and> k = bucket_name occ" by auto
next
  assume "\<exists>occ. birthday_this_year today b = Inr occ \<and> toordinal occ - toordinal today < 7
      \<and> k = bucket_name occ"
  then obtain occ where occ: "birthday_this_year today b = Inr occ"
    and lt: "toordinal occ - toordinal today < 7" and k: "k = bucket_name occ" by auto
  define d where "d = toordinal occ - toordinal today"
  from birthday_this_year_Inr [OF assms(1) occ] have vo: "valid_date occ" and d0: "0 \<le> d"
    by (simp_all add: d_def)
  from add_days_in_window [OF assms(1) vo d_def d0] obtain dt
    where dt: "add_days today d = Inr dt" and w: "weekday dt = weekday occ" by auto
  from w have "bucket_name dt = bucket_name occ" by (rule bucket_name_cong)
  with occ lt dt k assms(2) show "placed today r = Some k"
    by (simp add: placed_def delta_days_def d_def)
qed

section \<open>The result of \<open>get_birthdays_per_week\<close>\<close>

lemma get_birthdays_per_week_loop:
  assumes "get_birthdays_per_week today_date book = Inr bs" "next_monday today_date = Inr ws"
  shows "loop ws (map snd book) [] = Inr bs"
  using assms by (simp add: get_birthdays_per_week_def)

lemma wf_book_name: "wf_book book \<Longrightarrow> (k, r) \<in> set book \<Longrightarrow> name r = k"
  by (auto simp: wf_book_def list_all_iff)

lemma wf_book_names: "wf_book book \<Longrightarrow> map name (map snd book) = map fst book"
  by (auto simp: wf_book_def list_all_iff)

lemma wf_book_unique:
  assumes "wf_book book" "(k, r) \<in> set book" "r' \<in> set (map snd book)" "name r' = name r"
  shows "r' = r"
proof -
  from assms(3) obtain k' where k': "(k', r') \<in> set book" by auto
  from wf_book_name [OF assms(1) k'] wf_book_name [OF assms(1,2)] assms(4) have "k' = k" by simp
  with k' assms(1,2) show ?thesis
    by (auto simp: wf_book_def dest: eq_key_imp_eq_value)
qed

lemma in_bucket_Nil: "\<not> in_bucket [] k x"
  by (simp add: in_bucket_def)

text \<open>A record of a well-formed book is in a bucket exactly when the loop body files it there.\<close>

lemma in_bucket_placed:
  assumes "wf_book book" "get_birthdays_per_week today_date book = Inr bs"
    "next_monday today_date = Inr ws" "(k, r) \<in> set book"
  shows "in_bucket bs wd (name r) \<longleftrightarrow> placed ws r = Some wd"
proof -
  note l = get_birthdays_per_week_loop [OF assms(2,3)]
  from assms(4) have m: "r \<in> set (map snd book)" by force
  from loop_in_bucket [OF l, of wd "name r"]
  have "in_bucket bs wd (name r) \<longleftrightarrow> (\<exists>r' \<in> set (map snd book). name r' = name r \<and> placed ws r' = Some wd)"
    by (simp add: in_bucket_Nil)
  also have "\<dots> \<longleftrightarrow> placed ws r = Some wd"
    using m wf_book_unique [OF assms(1,4)] by blast
  finally show ?thesis .
qed

lemma in_bucket_occurrence:
  assumes "valid_date today_date" "wf_book book" "get_birthdays_per_week today_date book = Inr bs"
    "next_monday today_date = Inr ws" "(k, r) \<in> set book" "birthday r = Some b"
  shows "in_bucket bs wd (name r) \<longleftrightarrow>
         (\<exists>occ. birthday_this_year ws b = Inr occ \<and> toordinal occ - toordinal ws < 7
                \<and> wd = bucket_name occ)"
  using in_bucket_placed [OF assms(2,3,4,5)] placed_iff [OF next_monday_props(1) [OF assms(1,4)] assms(6)]
  by simp



section \<open>C5: inside and outside the window\<close>

text \<open>
  C5: when the method returns, a contact of the book with a birthday set is in a bucket
  if and only if its \<open>delta_days\<close>, the days from the window start to the next occurrence
  of the birthday, satisfies \<open>0 \<le> delta_days < 7\<close>. With 10 days it is in no bucket;
  with 0 days, a birthday on the window start itself, it is in the Monday bucket.
\<close>

theorem in_bucket_iff_delta_days_in_window:
  assumes "valid_date today_date" "wf_book book" "get_birthdays_per_week today_date book = Inr bs"
    "next_monday today_date = Inr ws" "(k, r) \<in> set book" "birthday r = Some b"
  shows "((\<exists>wd. in_bucket bs wd (name r)) \<longleftrightarrow> (\<exists>d. delta_days ws b = Inr d \<and> 0 \<le> d \<and> d < 7))
         \<and> (delta_days ws b = Inr 10 \<longrightarrow> (\<forall>wd. \<not> in_bucket bs wd (name r)))
         \<and> (delta_days ws b = Inr 0 \<longrightarrow> in_bucket bs ''Monday'' (name r))"
proof -
  note ws = next_monday_props [OF assms(1,4)]
  note ib = in_bucket_occurrence [OF assms]
  have iff: "(\<exists>wd. in_bucket bs wd (name r)) \<longleftrightarrow> (\<exists>d. delta_days ws b = Inr d \<and> 0 \<le> d \<and> d < 7)"
  proof
    assume "\<exists>wd. in_bucket bs wd (name r)"
    then obtain occ where occ: "birthday_this_year ws b = Inr occ" "toordinal occ - toordinal ws < 7"
      by (auto simp: ib)
    from birthday_this_year_Inr [OF ws(1) occ(1)] occ
    show "\<exists>d. delta_days ws b = Inr d \<and> 0 \<le> d \<and> d < 7" by (simp add: delta_days_def)
  next
    assume "\<exists>d. delta_days ws b = Inr d \<and> 0 \<le> d \<and> d < 7"
    then obtain occ where "birthday_this_year ws b = Inr occ" "toordinal occ - toordinal ws < 7"
      by (auto simp: delta_days_Inr)
    then have "in_bucket bs (bucket_name occ) (name r)" by (auto simp: ib)
    then show "\<exists>wd. in_bucket bs wd (name r)" ..
  qed
  have ten: "delta_days ws b = Inr 10 \<longrightarrow> (\<forall>wd. \<not> in_bucket bs wd (name r))"
    using iff by auto
  have zero: "delta_days ws b = Inr 0 \<longrightarrow> in_bucket bs ''Monday'' (name r)"
  proof
    assume "delta_days ws b = Inr 0"
    then obtain occ where occ: "birthday_this_year ws b = Inr occ" and o: "toordinal occ = toordinal ws"
      by (auto simp: delta_days_Inr)
    from o ws(3) have "weekday occ = 0" by (simp add: weekday_def)
    then have "bucket_name occ = ''Monday''" by (rule bucket_name_monday)
    with occ o show "in_bucket bs ''Monday'' (name r)" by (auto simp: ib)
  qed
  from iff ten zero show ?thesis by blast
qed

theorem in_bucket_iff_delta_days_in_window_witness:
  "valid_date june_today \<and> wf_book june_book
   \<and> get_birthdays_per_week june_today june_book = Inr june_result
   \<and> next_monday june_today = Inr june_monday
   \<and> delta_days june_monday ''19.06.1990'' = Inr 2 \<and> in_bucket june_result ''Wednesday'' ''Alice''
   \<and> delta_days june_monday ''27.06.1985'' = Inr 10 \<and> (\<forall>wd. \<not> in_bucket june_result wd ''Carol'')
   \<and> delta_days june_monday ''17.06.1980'' = Inr 0 \<and> in_bucket june_result ''Monday'' ''Eve''"
proof -
  have v: "valid_date june_today" by code_simp
  have w: "wf_book june_book" by code_simp
  have g: "get_birthdays_per_week june_today june_book = Inr june_result" by code_simp
  have m: "next_monday june_today = Inr june_monday" by code_simp
  have c: "(''Carol'', carol) \<in> set june_book" "birthday carol = Some ''27.06.1985''"
    "name carol = ''Carol''" "delta_days june_monday ''27.06.1985'' = Inr 10" by code_simp+
  have e: "(''Eve'', eve) \<in> set june_book" "birthday eve = Some ''17.06.1980''"
    "name eve = ''Eve''" "delta_days june_monday ''17.06.1980'' = Inr 0" by code_simp+
  have a: "delta_days june_monday ''19.06.1990'' = Inr 2" "in_bucket june_result ''Wednesday'' ''Alice''"
    by code_simp+
  from in_bucket_iff_delta_days_in_window [OF v w g m c(1,2)] c(3,4)
  have "\<forall>wd. \<not> in_bucket june_result wd ''Carol''" by simp
  moreover from in_bucket_iff_delta_days_in_window [OF v w g m e(1,2)] e(3,4)
  have "in_bucket june_result ''Monday'' ''Eve''" by simp
  ultimately show ?thesis using v w g m c(4) e(4) a by simp
qed

section \<open>C6: a birthday that has passed\<close>



section \<open>C7: no weekend bucket\<close>

lemma placed_not_weekend: "placed today r \<noteq> Some ''Saturday'' \<and> placed today r \<noteq> Some ''Sunday''"
  using bucket_name_not_weekend
  by (auto simp: placed_def split: option.splits sum.splits)

text \<open>
  C7: when the method returns, neither \<open>Saturday\<close> nor \<open>Sunday\<close> is a key of the
  mapping, and every contact of the book whose birthday is within the window and whose
  computed weekday is Saturday or Sunday is in the \<open>Monday\<close> bucket.
\<close>

theorem weekend_birthdays_in_monday_bucket:
  assumes "get_birthdays_per_week today_date book = Inr bs" "next_monday today_date = Inr ws"
  shows "''Saturday'' \<notin> set (map fst bs) \<and> ''Sunday'' \<notin> set (map fst bs)
         \<and> (\<forall>(k, r) \<in> set book. \<forall>b d dt.
               birthday r = Some b \<and> delta_days ws b = Inr d \<and> d < 7 \<and> add_days ws d = Inr dt
               \<and> (strftime_A dt = ''Saturday'' \<or> strftime_A dt = ''Sunday'')
               \<longrightarrow> in_bucket bs ''Monday'' (name r))"
proof -
  note l = get_birthdays_per_week_loop [OF assms]
  from loop_keys [OF l] placed_not_weekend
  have keys: "''Saturday'' \<notin> set (map fst bs) \<and> ''Sunday'' \<notin> set (map fst bs)" by auto
  have "in_bucket bs ''Monday'' (name r)"
    if r: "(k, r) \<in> set book" and b: "birthday r = Some b" and d: "delta_days ws b = Inr d" "d < 7"
      and dt: "add_days ws d = Inr dt" and e: "strftime_A dt = ''Saturday'' \<or> strftime_A dt = ''Sunday''"
    for k r b d dt
  proof -
    from e have "bucket_name dt = ''Monday''" by (auto simp: bucket_name_def)
    with b d dt have "placed ws r = Some ''Monday''" by (simp add: placed_def)
    moreover from r have "r \<in> set (map snd book)" by force
    ultimately show ?thesis using loop_in_bucket [OF l, of "''Monday''" "name r"] by blast
  qed
  with keys show ?thesis by blast
qed

theorem weekend_birthdays_in_monday_bucket_witness:
  "get_birthdays_per_week june_today june_book = Inr june_result
   \<and> next_monday june_today = Inr june_monday
   \<and> ''Saturday'' \<notin> set (map fst june_result) \<and> ''Sunday'' \<notin> set (map fst june_result)
   \<and> (''Bob'', bob) \<in> set june_book \<and> birthday bob = Some ''22.06.1985''
   \<and> delta_days june_monday ''22.06.1985'' = Inr 5
   \<and> add_days june_monday 5 = Inr \<lparr>year = 2024, month = 6, day = 22\<rparr>
   \<and> strftime_A \<lparr>year = 2024, month = 6, day = 22\<rparr> = ''Saturday''
   \<and> in_bucket june_result ''Monday'' ''Bob''"
proof -
  have g: "get_birthdays_per_week june_today june_book = Inr june_result" by code_simp
  have m: "next_monday june_today = Inr june_monday" by code_simp
  have r: "(''Bob'', bob) \<in> set june_book" by code_simp
  have b: "birthday bob = Some ''22.06.1985''" "delta_days june_monday ''22.06.1985'' = Inr 5"
    "add_days june_monday 5 = Inr \<lparr>year = 2024, month = 6, day = 22\<rparr>"
    "strftime_A \<lparr>year = 2024, month = 6, day = 22\<rparr> = ''Saturday''" "name bob = ''Bob''"
    by code_simp+
  note t = weekend_birthdays_in_monday_bucket [OF g m]
  from t have k: "''Saturday'' \<notin> set (map fst june_result) \<and> ''Sunday'' \<notin> set (map fst june_result)"
    by blast
  from t r have "\<forall>b d dt. birthday bob = Some b \<and> delta_days june_monday b = Inr d \<and> d < 7
      \<and> add_days june_monday d = Inr dt \<and> (strftime_A dt = ''Saturday'' \<or> strftime_A dt = ''Sunday'')
      \<longrightarrow> in_bucket june_result ''Monday'' (name bob)" by blast
  with b have "in_bucket june_result ''Monday'' ''Bob''" by simp
  with g m k r b show ?thesis by simp
qed

section \<open>C8: one bucket for each name\<close>

lemma distinct_concat_member: "distinct (concat xss) \<Longrightarrow> xs \<in> set xss \<Longrightarrow> distinct xs"
  by (induction xss) auto

text \<open>
  C8: when the method returns on a well-formed book, the keys of the mapping are distinct
  and the names of all its buckets together are distinct: a name of the output is in one
  bucket only and once in that bucket. Every name of the output is a name of the book.
\<close>

theorem each_name_in_one_bucket_once:
  assumes "wf_book book" "get_birthdays_per_week today_date book = Inr bs"
  shows "distinct (map fst bs) \<and> distinct (all_names bs)
         \<and> (\<forall>n k1 k2. in_bucket bs k1 n \<and> in_bucket bs k2 n \<longrightarrow> k1 = k2)
         \<and> (\<forall>k ns. map_of bs k = Some ns \<longrightarrow> distinct ns)
         \<and> set (all_names bs) \<subseteq> set (map fst book)"
proof -
  from assms(2) obtain ws where ws: "next_monday today_date = Inr ws"
    by (auto simp: get_birthdays_per_week_def split: sum.splits)
  note l = get_birthdays_per_week_loop [OF assms(2) ws]
  from assms(1) have "distinct (map fst book)" by (simp add: wf_book_def)
  then have dn: "distinct (map name (map snd book))"
    by (simp only: wf_book_names [OF assms(1)])
  have dk: "distinct (map fst bs)" using loop_distinct_keys [OF l] by simp
  have da: "distinct (all_names bs)"
    using loop_distinct_names [OF l dn] by (simp add: all_names_Nil)
  have one: "k1 = k2" if "in_bucket bs k1 n" "in_bucket bs k2 n" for n k1 k2
  proof -
    from that(1) loop_in_bucket [OF l, of k1 n] obtain r1
      where r1: "r1 \<in> set (map snd book)" "name r1 = n" "placed ws r1 = Some k1"
      by (auto simp: in_bucket_Nil)
    from that(2) loop_in_bucket [OF l, of k2 n] obtain r2
      where r2: "r2 \<in> set (map snd book)" "name r2 = n" "placed ws r2 = Some k2"
      by (auto simp: in_bucket_Nil)
    from r2(1) obtain k where "(k, r2) \<in> set book" by auto
    from wf_book_unique [OF assms(1) this r1(1)] r1(2) r2(2) have "r1 = r2" by simp
    with r1(3) r2(3) show ?thesis by simp
  qed
  have each: "distinct ns" if "map_of bs k = Some ns" for k ns
  proof -
    from that have "ns \<in> set (map snd bs)" by (force dest: map_of_SomeD)
    with da show ?thesis unfolding all_names_def by (rule distinct_concat_member)
  qed
  have "set (all_names bs) \<subseteq> set (map name (map snd book))"
    using loop_all_names [OF l] by (auto simp: all_names_Nil)
  then have sub: "set (all_names bs) \<subseteq> set (map fst book)"
    by (simp only: wf_book_names [OF assms(1)])
  from one have "\<forall>n k1 k2. in_bucket bs k1 n \<and> in_bucket bs k2 n \<longrightarrow> k1 = k2" by blast
  moreover from each have "\<forall>k ns. map_of bs k = Some ns \<longrightarrow> distinct ns" by blast
  ultimately show ?thesis using dk da sub by simp
qed


theorem each_name_in_one_bucket_once_witness:
  "wf_book june_book \<and> get_birthdays_per_week june_today june_book = Inr june_result
   \<and> delta_days june_monday ''17.06.1980'' = Inr 0
   \<and> in_bucket june_result ''Monday'' ''Eve''
   \<and> distinct (all_names june_result)
   \<and> \<not> in_bucket june_result ''Wednesday'' ''Eve''"
proof -
  have w: "wf_book june_book" by code_simp
  have g: "get_birthdays_per_week june_today june_book = Inr june_result" by code_simp
  have e: "delta_days june_monday ''17.06.1980'' = Inr 0" "in_bucket june_result ''Monday'' ''Eve''"
    by code_simp+
  note t = each_name_in_one_bucket_once [OF w g]
  from t have d: "distinct (all_names june_result)" by (elim conjE)
  from t have one: "\<forall>n k1 k2. in_bucket june_result k1 n \<and> in_bucket june_result k2 n \<longrightarrow> k1 = k2"
    by (elim conjE)
  have u: "\<not> in_bucket june_result ''Wednesday'' ''Eve''"
  proof
    assume "in_bucket june_result ''Wednesday'' ''Eve''"
    with one [rule_format, of "''Wednesday''" "''Eve''" "''Monday''"] e(2)
    have "''Wednesday'' = ''Monday''" by (simp only:)
    then show False by simp
  qed
  from w g e d u show ?thesis by (intro conjI)
qed

section \<open>Properties of the address book\<close>

lemma map_of_dict_set: "map_of (dict_set kvs k v) = (map_of kvs)(k \<mapsto> v)"
  by (induction kvs k v rule: dict_set.induct) (auto simp: fun_eq_iff)

lemma keys_dict_set:
  "map fst (dict_set kvs k v) = (if k \<in> set (map fst kvs) then map fst kvs else map fst kvs @ [k])"
  by (induction kvs k v rule: dict_set.induct) auto

lemma set_dict_set:
  "distinct (map fst kvs) \<Longrightarrow> set (dict_set kvs k v) = insert (k, v) {(k', v'). (k', v') \<in> set kvs \<and> k' \<noteq> k}"
  by (induction kvs k v rule: dict_set.induct) force+

lemma wf_book_empty: "wf_book []"
  by (simp add: wf_book_def)

lemma wf_book_add_record: "wf_book book \<Longrightarrow> wf_book (add_record book record)"
  by (auto simp: wf_book_def add_record_def keys_dict_set set_dict_set list_all_iff)

lemma wf_book_delete: "wf_book book \<Longrightarrow> wf_book (snd (delete book n))"
  by (auto simp: wf_book_def delete_def list_all_iff distinct_map_filter)

section \<open>C10: a second record with the same name\<close>

text \<open>
  C10: \<open>add_record\<close> with a record whose name is the name of a record of the book puts
  the new record in the place of the old one and raises nothing (it has no way to raise):
  looking the name up gives the new record, whole; the keys and their order are as
  before; the other names keep their records; and the old record, with its phones and its
  birthday, is no longer a value of the book.
\<close>

theorem add_record_replaces_record_of_same_name:
  assumes "wf_book book" "find book (name record) = Some old"
  shows "find (add_record book record) (name record) = Some record
         \<and> map fst (add_record book record) = map fst book
         \<and> (\<forall>n. n \<noteq> name record \<longrightarrow> find (add_record book record) n = find book n)
         \<and> (old \<noteq> record \<longrightarrow> old \<notin> set (map snd (add_record book record)))
         \<and> wf_book (add_record book record)"
proof -
  have a: "find (add_record book record) (name record) = Some record"
    by (simp add: find_def add_record_def map_of_dict_set)
  from assms(2) have "name record \<in> set (map fst book)"
    by (auto simp: find_def dest: map_of_SomeD intro: rev_image_eqI)
  then have b: "map fst (add_record book record) = map fst book"
    by (simp add: add_record_def keys_dict_set)
  have c: "\<forall>n. n \<noteq> name record \<longrightarrow> find (add_record book record) n = find book n"
    by (simp add: find_def add_record_def map_of_dict_set)
  have d: "old \<noteq> record \<longrightarrow> old \<notin> set (map snd (add_record book record))"
  proof (intro impI notI)
    assume ne: "old \<noteq> record" and "old \<in> set (map snd (add_record book record))"
    then obtain k where "(k, old) \<in> set (add_record book record)" by auto
    with assms(1) ne have k: "(k, old) \<in> set book" "k \<noteq> name record"
      by (auto simp: add_record_def set_dict_set wf_book_def)
    from assms(2) have "(name record, old) \<in> set book" by (auto simp: find_def dest: map_of_SomeD)
    from wf_book_name [OF assms(1) this] wf_book_name [OF assms(1) k(1)] k(2) show False by simp
  qed
  from a b c d wf_book_add_record [OF assms(1)] show ?thesis by blast
qed


theorem add_record_replaces_record_of_same_name_witness:
  "wf_book june_book \<and> find june_book (name alice_again) = Some alice \<and> alice \<noteq> alice_again
   \<and> find (add_record june_book alice_again) ''Alice'' = Some alice_again
   \<and> map fst (add_record june_book alice_again) = map fst june_book
   \<and> find (add_record june_book alice_again) ''Bob'' = find june_book ''Bob''
   \<and> alice \<notin> set (map snd (add_record june_book alice_again))"
proof -
  have w: "wf_book june_book" by code_simp
  have f: "find june_book (name alice_again) = Some alice" by code_simp
  have n: "alice \<noteq> alice_again" "name alice_again = ''Alice''" "''Bob'' \<noteq> name alice_again"
    by code_simp+
  note t = add_record_replaces_record_of_same_name [OF w f]
  from t n(2) have a: "find (add_record june_book alice_again) ''Alice'' = Some alice_again"
    by (simp only:)
  from t have b: "map fst (add_record june_book alice_again) = map fst june_book" by (elim conjE)
  from t have "\<forall>n. n \<noteq> name alice_again \<longrightarrow> find (add_record june_book alice_again) n = find june_book n"
    by (elim conjE)
  with n(3) have c: "find (add_record june_book alice_again) ''Bob'' = find june_book ''Bob''"
    by (elim allE impE)
  from t have "alice \<noteq> alice_again \<longrightarrow> alice \<notin> set (map snd (add_record june_book alice_again))"
    by (elim conjE)
  with n(1) have d: "alice \<notin> set (map snd (add_record june_book alice_again))" by (elim impE)
  from w f n(1) a b c d show ?thesis by (intro conjI)
qed

section \<open>Properties of \<open>strptime\<close>\<close>

lemma digit_cases:
  assumes "c \<in> set digits"
  shows "c = CHR ''0'' \<or> c = CHR ''1'' \<or> c = CHR ''2'' \<or> c = CHR ''3'' \<or> c = CHR ''4''
         \<or> c = CHR ''5'' \<or> c = CHR ''6'' \<or> c = CHR ''7'' \<or> c = CHR ''8'' \<or> c = CHR ''9''"
  using assms by (simp add: digits_def)

lemma digit_val_simps:
  "digit_val CHR ''0'' = 0" "digit_val CHR ''1'' = 1" "digit_val CHR ''2'' = 2"
  "digit_val CHR ''3'' = 3" "digit_val CHR ''4'' = 4" "digit_val CHR ''5'' = 5"
  "digit_val CHR ''6'' = 6" "digit_val CHR ''7'' = 7" "digit_val CHR ''8'' = 8"
  "digit_val CHR ''9'' = 9"
  by (simp_all add: digit_val_def)

lemma digit_val_range: "c \<in> set digits \<Longrightarrow> 0 \<le> digit_val c \<and> digit_val c \<le> 9"
  using digit_cases [of c] by (auto simp: digit_val_simps)

lemma digit_nonzero: "c \<in> set digits \<Longrightarrow> 1 \<le> digit_val c \<Longrightarrow> c \<in> set nonzero_digits"
  using digit_cases [of c] by (auto simp: digit_val_simps nonzero_digits_def)

lemma digit_le_1: "c \<in> set digits \<Longrightarrow> digit_val c \<le> 1 \<Longrightarrow> c = CHR ''0'' \<or> c = CHR ''1''"
  using digit_cases [of c] by (auto simp: digit_val_simps)

lemma digit_le_2:
  "c \<in> set digits \<Longrightarrow> digit_val c \<le> 2 \<Longrightarrow> c = CHR ''0'' \<or> c = CHR ''1'' \<or> c = CHR ''2''"
  using digit_cases [of c] by (auto simp: digit_val_simps)

lemma digit_not_blank: "c \<in> set digits \<Longrightarrow> c \<noteq> CHR '' ''"
  using digit_cases [of c] by auto


lemma one_of_hit: "c \<in> set cs \<Longrightarrow> one_of cs (c # r) = [([c], r)]"
  by (simp add: one_of_def)

lemma one_of_miss: "c \<notin> set cs \<Longrightarrow> one_of cs (c # r) = []"
  by (simp add: one_of_def)

lemma two_of_hit: "a \<in> set cs1 \<Longrightarrow> b \<in> set cs2 \<Longrightarrow> two_of cs1 cs2 (a # b # r) = [([a, b], r)]"
  by (simp add: two_of_def one_of_hit)

lemma two_of_miss: "a \<notin> set cs1 \<Longrightarrow> two_of cs1 cs2 (a # r) = []"
  by (simp add: two_of_def one_of_miss)

text \<open>Two digits that are a day of some month are the first match of the day group.\<close>

lemma re_d_two_digits:
  assumes "d1 \<in> set digits" "d2 \<in> set digits"
    and "1 \<le> 10 * digit_val d1 + digit_val d2" "10 * digit_val d1 + digit_val d2 \<le> 31"
  shows "\<exists>t. re_d (d1 # d2 # r) = ([d1, d2], r) # t"
proof -
  note r2 = digit_val_range [OF assms(2)]
  from digit_cases [OF assms(1)]
  consider "d1 = CHR ''0''" | "d1 = CHR ''1'' \<or> d1 = CHR ''2''" | "d1 = CHR ''3''"
    | "d1 = CHR ''4'' \<or> d1 = CHR ''5'' \<or> d1 = CHR ''6'' \<or> d1 = CHR ''7'' \<or> d1 = CHR ''8''
       \<or> d1 = CHR ''9''"
    by blast
  then show ?thesis
  proof cases
    case 1
    with assms(3) have "1 \<le> digit_val d2" by (simp add: digit_val_simps)
    from digit_nonzero [OF assms(2) this] 1 show ?thesis
      by (simp add: re_d_def two_of_miss two_of_hit)
  next
    case 2
    with assms(2) show ?thesis
      by (auto simp: re_d_def two_of_miss two_of_hit)
  next
    case 3
    with assms(4) have "digit_val d2 \<le> 1" by (simp add: digit_val_simps)
    from digit_le_1 [OF assms(2) this] 3 show ?thesis
      by (auto simp: re_d_def two_of_hit)
  next
    case 4
    with assms(4) r2 show ?thesis by (auto simp: digit_val_simps)
  qed
qed

text \<open>Two digits that are a month are the first match of the month group.\<close>

lemma re_m_two_digits:
  assumes "m1 \<in> set digits" "m2 \<in> set digits"
    and "1 \<le> 10 * digit_val m1 + digit_val m2" "10 * digit_val m1 + digit_val m2 \<le> 12"
  shows "\<exists>t. re_m (m1 # m2 # r) = ([m1, m2], r) # t"
proof -
  note r2 = digit_val_range [OF assms(2)]
  from digit_cases [OF assms(1)]
  consider "m1 = CHR ''0''" | "m1 = CHR ''1''"
    | "m1 = CHR ''2'' \<or> m1 = CHR ''3'' \<or> m1 = CHR ''4'' \<or> m1 = CHR ''5'' \<or> m1 = CHR ''6''
       \<or> m1 = CHR ''7'' \<or> m1 = CHR ''8'' \<or> m1 = CHR ''9''"
    by blast
  then show ?thesis
  proof cases
    case 1
    with assms(3) have "1 \<le> digit_val m2" by (simp add: digit_val_simps)
    from digit_nonzero [OF assms(2) this] 1 show ?thesis
      by (simp add: re_m_def two_of_miss two_of_hit)
  next
    case 2
    with assms(4) have "digit_val m2 \<le> 2" by (simp add: digit_val_simps)
    from digit_le_2 [OF assms(2) this] 2 show ?thesis
      by (auto simp: re_m_def two_of_hit)
  next
    case 3
    with assms(4) r2 show ?thesis by (auto simp: digit_val_simps)
  qed
qed

lemma re_Y_four_digits:
  assumes "y1 \<in> set digits" "y2 \<in> set digits" "y3 \<in> set digits" "y4 \<in> set digits"
  shows "re_Y (y1 # y2 # y3 # y4 # r) = [([y1, y2, y3, y4], r)]"
  using assms by (simp add: re_Y_def two_of_hit)

lemma py_int_two: "a \<in> set digits \<Longrightarrow> py_int [a, b] = 10 * digit_val a + digit_val b"
  using digit_not_blank [of a] by (simp add: py_int_def)

lemma py_int_four:
  "a \<in> set digits \<Longrightarrow>
   py_int [a, b, c, d] = 1000 * digit_val a + 100 * digit_val b + 10 * digit_val c + digit_val d"
  using digit_not_blank [of a] by (simp add: py_int_def)

lemma re_match_ddmmyyyy:
  assumes "d1 \<in> set digits" "d2 \<in> set digits" "m1 \<in> set digits" "m2 \<in> set digits"
    "y1 \<in> set digits" "y2 \<in> set digits" "y3 \<in> set digits" "y4 \<in> set digits"
    and "1 \<le> 10 * digit_val d1 + digit_val d2" "10 * digit_val d1 + digit_val d2 \<le> 31"
    and "1 \<le> 10 * digit_val m1 + digit_val m2" "10 * digit_val m1 + digit_val m2 \<le> 12"
  shows "\<exists>t. re_match [d1, d2, CHR ''.'', m1, m2, CHR ''.'', y1, y2, y3, y4]
              = ([d1, d2], [m1, m2], [y1, y2, y3, y4], []) # t"
proof -
  from re_d_two_digits [OF assms(1,2,9,10)] obtain t1
    where d: "re_d [d1, d2, CHR ''.'', m1, m2, CHR ''.'', y1, y2, y3, y4]
              = ([d1, d2], [CHR ''.'', m1, m2, CHR ''.'', y1, y2, y3, y4]) # t1" by blast
  from re_m_two_digits [OF assms(3,4,11,12)] obtain t2
    where m: "re_m [m1, m2, CHR ''.'', y1, y2, y3, y4] = ([m1, m2], [CHR ''.'', y1, y2, y3, y4]) # t2"
    by blast
  note y = re_Y_four_digits [OF assms(5-8), of "[]"]
  show ?thesis
    by (simp add: re_match_def d m y one_of_hit)
qed


lemma days_in_month_le_31: "days_in_month y m \<le> 31"
  by (simp add: days_in_month_def)

lemma length_10:
  "length s = 10 \<Longrightarrow> \<exists>a b c d e f g h i j. s = [a, b, c, d, e, f, g, h, i, j]"
  by (auto simp: eval_nat_numeral length_Suc_conv)

text \<open>\<open>strptime\<close> accepts every valid DD.MM.YYYY string, as the date it spells.\<close>

lemma strptime_valid_ddmmyyyy:
  assumes "valid_ddmmyyyy s"
  shows "strptime s = Inr \<lparr>year = 1000 * digit_val (s ! 6) + 100 * digit_val (s ! 7)
                               + 10 * digit_val (s ! 8) + digit_val (s ! 9),
                          month = 10 * digit_val (s ! 3) + digit_val (s ! 4),
                          day = 10 * digit_val (s ! 0) + digit_val (s ! 1)\<rparr>"
proof -
  from assms have "length s = 10" by (simp add: valid_ddmmyyyy_def)
  from length_10 [OF this] obtain d1 d2 p1 m1 m2 p2 y1 y2 y3 y4
    where s: "s = [d1, d2, p1, m1, m2, p2, y1, y2, y3, y4]" by blast
  define D where "D = 10 * digit_val d1 + digit_val d2"
  define M where "M = 10 * digit_val m1 + digit_val m2"
  define Y where "Y = 1000 * digit_val y1 + 100 * digit_val y2 + 10 * digit_val y3 + digit_val y4"
  from assms have p: "p1 = CHR ''.''" "p2 = CHR ''.''"
    and dg: "d1 \<in> set digits" "d2 \<in> set digits" "m1 \<in> set digits" "m2 \<in> set digits"
      "y1 \<in> set digits" "y2 \<in> set digits" "y3 \<in> set digits" "y4 \<in> set digits"
    and v: "1 \<le> Y" "1 \<le> M" "M \<le> 12" "1 \<le> D" "D \<le> days_in_month Y M"
    by (simp_all add: valid_ddmmyyyy_def s Let_def D_def M_def Y_def)
  from v(5) days_in_month_le_31 [of Y M] have d31: "D \<le> 31" by simp
  from digit_val_range [OF dg(5)] digit_val_range [OF dg(6)] digit_val_range [OF dg(7)]
    digit_val_range [OF dg(8)]
  have y9: "Y \<le> 9999" by (simp add: Y_def)
  from re_match_ddmmyyyy [OF dg v(4) [unfolded D_def] d31 [unfolded D_def] v(2,3) [unfolded M_def]]
  obtain t where "re_match s = ([d1, d2], [m1, m2], [y1, y2, y3, y4], []) # t"
    by (auto simp: s p)
  then have "strptime s = mk_date Y M D"
    by (simp add: strptime_def py_int_two [OF dg(1)] py_int_two [OF dg(3)] py_int_four [OF dg(5)]
        D_def M_def Y_def)
  also from v y9 have "\<dots> = Inr \<lparr>year = Y, month = M, day = D\<rparr>" by (simp add: mk_date_def)
  finally show ?thesis by (simp add: s D_def M_def Y_def)
qed

lemma Birthday_init_valid: "valid_ddmmyyyy s \<Longrightarrow> Birthday_init s = Inr s"
  by (simp add: Birthday_init_def Birthday_validate_def strptime_valid_ddmmyyyy)

section \<open>C9: the birthday of a record is set once\<close>

text \<open>
  C9: \<open>add_birthday\<close> on a record that has a birthday raises (ValueError) and leaves the
  record, and so its birthday, as it was; on a record with no birthday and a valid
  DD.MM.YYYY string it raises nothing and sets the birthday to that string. The other
  methods of a record leave the birthday alone.
\<close>

theorem add_birthday_sets_birthday_once:
  "(birthday r \<noteq> None \<longrightarrow> add_birthday r s = (Some ValueError, r))
   \<and> (birthday r = None \<and> valid_ddmmyyyy s \<longrightarrow> add_birthday r s = (None, r\<lparr>birthday := Some s\<rparr>))
   \<and> birthday (snd (add_phone r p)) = birthday r
   \<and> birthday (snd (remove_phone r p)) = birthday r
   \<and> birthday (snd (edit_phone r p q)) = birthday r"
proof -
  have a: "birthday r \<noteq> None \<longrightarrow> add_birthday r s = (Some ValueError, r)"
    by (simp add: add_birthday_def)
  have b: "birthday r = None \<and> valid_ddmmyyyy s \<longrightarrow> add_birthday r s = (None, r\<lparr>birthday := Some s\<rparr>)"
    by (simp add: add_birthday_def Birthday_init_valid)
  have c: "birthday (snd (add_phone r p)) = birthday r"
    by (simp add: add_phone_def split: sum.splits)
  have d: "birthday (snd (remove_phone r p)) = birthday r"
    by (simp add: remove_phone_def)
  have e: "birthday (snd (edit_phone r p q)) = birthday r"
    by (simp add: edit_phone_def split: option.splits)
  from a b c d e show ?thesis by (intro conjI)
qed

theorem add_birthday_sets_birthday_once_witness:
  "birthday (Record_init ''Alice'') = None \<and> valid_ddmmyyyy ''19.06.1990''
   \<and> add_birthday (Record_init ''Alice'') ''19.06.1990''
       = (None, \<lparr>name = ''Alice'', phones = [], birthday = Some ''19.06.1990''\<rparr>)
   \<and> birthday alice \<noteq> None
   \<and> add_birthday alice ''20.07.1991'' = (Some ValueError, alice)
   \<and> birthday (snd (add_birthday alice ''20.07.1991'')) = Some ''19.06.1990''"
proof -
  have n: "birthday (Record_init ''Alice'') = None" by code_simp
  have v: "valid_ddmmyyyy ''19.06.1990''" by code_simp
  have u: "(Record_init ''Alice'')\<lparr>birthday := Some ''19.06.1990''\<rparr>
           = \<lparr>name = ''Alice'', phones = [], birthday = Some ''19.06.1990''\<rparr>" by code_simp
  have s: "birthday alice \<noteq> None" "birthday alice = Some ''19.06.1990''" by code_simp+
  note t1 = add_birthday_sets_birthday_once [of "Record_init ''Alice''" "''19.06.1990''"]
  note t2 = add_birthday_sets_birthday_once [of alice "''20.07.1991''"]
  from t1 [THEN conjunct2, THEN conjunct1, THEN mp, OF conjI [OF n v]]
  have a: "add_birthday (Record_init ''Alice'') ''19.06.1990''
           = (None, \<lparr>name = ''Alice'', phones = [], birthday = Some ''19.06.1990''\<rparr>)"
    unfolding u .
  from t2 [THEN conjunct1, THEN mp, OF s(1)]
  have b: "add_birthday alice ''20.07.1991'' = (Some ValueError, alice)" .
  with s(2) have c: "birthday (snd (add_birthday alice ''20.07.1991'')) = Some ''19.06.1990''"
    by (simp only: snd_conv)
  from n v a s(1) b c show ?thesis by (intro conjI)
qed

section \<open>When \<open>get_birthdays_per_week\<close> returns\<close>

lemma replace_year_returns:
  assumes "valid_date bd" "\<not> (month bd = 2 \<and> day bd = 29)" "1 \<le> y" "y \<le> 9999"
  shows "\<exists>d. replace_year bd y = Inr d"
proof -
  from assms(1) have m: "1 \<le> month bd" "month bd \<le> 12" and d: "1 \<le> day bd"
    and dd: "day bd \<le> days_in_month (year bd) (month bd)"
    by (simp_all add: valid_date_def valid_md_def)
  from dd assms(2) have "day bd \<le> days_in_month y (month bd)"
    by (auto simp: days_in_month_def split: if_splits)
  with m d assms(3,4) show ?thesis by (simp add: replace_year_def mk_date_def)
qed

lemma birthday_this_year_returns:
  assumes "valid_date today" "year today < 9999" "strptime b = Inr bd"
    "\<not> (month bd = 2 \<and> day bd = 29)"
  shows "\<exists>occ. birthday_this_year today b = Inr occ"
proof -
  from assms(1) have y: "1 \<le> year today" "year today \<le> 9999" by (simp_all add: valid_date_def)
  from replace_year_returns [OF strptime_Inr [OF assms(3)] assms(4) y]
  obtain a where a: "replace_year bd (year today) = Inr a" ..
  from replace_year_Inr [OF a] assms(4) have va: "valid_date a" and na: "\<not> (month a = 2 \<and> day a = 29)"
    by simp_all
  from y assms(2) have "1 \<le> year today + 1" "year today + 1 \<le> 9999" by simp_all
  from replace_year_returns [OF va na this] obtain a' where "replace_year a (year today + 1) = Inr a'" ..
  with assms(3) a show ?thesis by (simp add: birthday_this_year_def)
qed

lemma loop_body_returns:
  assumes "valid_date today" "year today < 9999" "birthday r = Some b" "strptime b = Inr bd"
    "\<not> (month bd = 2 \<and> day bd = 29)"
  shows "\<exists>bs'. loop_body today r bs = Inr bs'"
proof -
  from birthday_this_year_returns [OF assms(1,2,4,5)]
  obtain occ where occ: "birthday_this_year today b = Inr occ" ..
  define d where "d = toordinal occ - toordinal today"
  from birthday_this_year_Inr [OF assms(1) occ] have vo: "valid_date occ" and d0: "0 \<le> d"
    by (simp_all add: d_def)
  from add_days_in_window [OF assms(1) vo d_def d0] obtain dt where "add_days today d = Inr dt"
    by blast
  with occ assms(3) show ?thesis
    by (simp add: loop_body_def delta_days_def d_def Let_def)
qed

lemma loop_returns:
  assumes "valid_date today" "year today < 9999"
  shows "list_all (\<lambda>r. \<exists>b bd. birthday r = Some b \<and> strptime b = Inr bd \<and> \<not> (month bd = 2 \<and> day bd = 29)) rs
         \<Longrightarrow> \<exists>bs'. loop today rs bs = Inr bs'"
proof (induction rs arbitrary: bs)
  case Nil
  then show ?case by simp
next
  case (Cons r rs)
  from Cons.prems obtain b bd where "birthday r = Some b" "strptime b = Inr bd"
    "\<not> (month bd = 2 \<and> day bd = 29)" by auto
  from loop_body_returns [OF assms this] obtain bs1 where b: "loop_body today r bs = Inr bs1" ..
  from Cons.prems have "list_all (\<lambda>r. \<exists>b bd. birthday r = Some b \<and> strptime b = Inr bd
      \<and> \<not> (month bd = 2 \<and> day bd = 29)) rs" by simp
  from Cons.IH [OF this, of bs1] b show ?case by simp
qed

text \<open>
  The method returns a mapping when every record has a birthday that is not 29 February
  and the window does not start in the year 9999.
\<close>

lemma get_birthdays_per_week_returns:
  assumes "valid_date today_date" "next_monday today_date = Inr ws" "year ws < 9999"
    and "list_all (\<lambda>r. \<exists>b bd. birthday r = Some b \<and> strptime b = Inr bd
                        \<and> \<not> (month bd = 2 \<and> day bd = 29)) (map snd book)"
  shows "\<exists>bs. get_birthdays_per_week today_date book = Inr bs"
  using loop_returns [OF next_monday_props(1) [OF assms(1,2)] assms(3,4)] assms(2)
  by (simp add: get_birthdays_per_week_def)

text \<open>It raises AttributeError at the first record with no birthday, whatever the others are.\<close>

lemma loop_body_no_birthday: "birthday r = None \<Longrightarrow> loop_body today r bs = Inl AttributeError"
  by (simp add: loop_body_def)

lemma loop_no_birthday_raises:
  "r \<in> set rs \<Longrightarrow> birthday r = None \<Longrightarrow> \<exists>e. loop today rs bs = Inl e"
proof (induction rs arbitrary: bs)
  case Nil
  then show ?case by simp
next
  case (Cons a rs)
  show ?case
  proof (cases "loop_body today a bs")
    case (Inl e)
    then show ?thesis by simp
  next
    case (Inr bs1)
    with Cons.prems loop_body_no_birthday [of a today bs] have "r \<in> set rs" by auto
    from Cons.IH [OF this Cons.prems(2), of bs1] Inr show ?thesis by simp
  qed
qed

section \<open>The phones that \<open>add_phone\<close> and \<open>remove_phone\<close> leave\<close>

lemma add_phone_keeps_phones_valid:
  "list_all Phone_validate (phones r) \<Longrightarrow> list_all Phone_validate (phones (snd (add_phone r p)))"
  by (auto simp: add_phone_def Phone_init_def)

lemma add_phone_raises_iff: "fst (add_phone r p) = Some ValueError \<longleftrightarrow> \<not> Phone_validate p"
  by (simp add: add_phone_def Phone_init_def)

lemma remove_phone_keeps_phones_valid:
  "list_all Phone_validate (phones r) \<Longrightarrow> list_all Phone_validate (phones (snd (remove_phone r p)))"
  by (auto simp: remove_phone_def list_all_iff)

lemma first_index_None: "first_index ps v = None \<longleftrightarrow> v \<notin> set ps"
  by (induction ps) auto

lemma edit_phone_missing: "old \<notin> set (phones r) \<Longrightarrow> edit_phone r old new = (Some AttributeError, r)"
  by (simp add: edit_phone_def find_phone_def first_index_None [THEN iffD2])

lemma edit_phone_present:
  "old \<in> set (phones r) \<Longrightarrow> fst (edit_phone r old new) = None \<and> new \<in> set (phones (snd (edit_phone r old new)))"
proof -
  have "first_index ps old = Some i \<Longrightarrow> i < length ps" for ps i
    by (induction ps arbitrary: i) (auto split: if_splits)
  moreover assume "old \<in> set (phones r)"
  then have "first_index (phones r) old \<noteq> None" by (simp add: first_index_None)
  ultimately show ?thesis
    by (auto simp: edit_phone_def find_phone_def set_update_memI split: option.splits)
qed

end
